theory Spec2Isabelle
  imports Main "HOL-Library.Char_ord" "HOL-Library.List_Lexorder"
begin

section \<open>Python values used by qbtui.py\<close>

text \<open>
  Python integers are unbounded: they are \<^typ>\<open>int\<close>.  Python strings are modelled as
  \<^typ>\<open>string\<close>, one \<^typ>\<open>char\<close> per code point (the code points below 256); every
  property below is about lengths, slices and the order of code points, which read the
  same on longer code points.
\<close>

text \<open>
  A slice bound as Python normalises it against the length of the sequence: a negative
  bound counts from the end, and both ends are clamped into \<open>0 .. len\<close>.
\<close>

definition py_index :: "int \<Rightarrow> nat \<Rightarrow> nat" where
  "py_index i len = (if i < 0 then nat (max 0 (int len + i)) else min (nat i) len)"

text \<open>\<^verbatim>\<open>xs[:stop]\<close>, \<^verbatim>\<open>xs[start:]\<close> and \<^verbatim>\<open>xs[start:stop]\<close>.\<close>

definition slice_to :: "int \<Rightarrow> 'a list \<Rightarrow> 'a list" where
  "slice_to stop xs = take (py_index stop (length xs)) xs"

definition slice_from :: "int \<Rightarrow> 'a list \<Rightarrow> 'a list" where
  "slice_from start xs = drop (py_index start (length xs)) xs"

definition slice :: "int \<Rightarrow> int \<Rightarrow> 'a list \<Rightarrow> 'a list" where
  "slice start stop xs =
     (let a = py_index start (length xs); b = py_index stop (length xs)
      in take (b - a) (drop a xs))"

text \<open>
  \<^verbatim>\<open>str.splitlines()\<close>: a line ends at a line boundary (LF, CR, CR LF, VT, FF, FS, GS,
  RS, NEL), the boundary is dropped, and a last line with no boundary after it is kept
  only when it is not empty.
\<close>

definition is_linebreak :: "char \<Rightarrow> bool" where
  "is_linebreak c = (c \<in> {CHR 0x0A, CHR 0x0B, CHR 0x0C, CHR 0x0D, CHR 0x1C, CHR 0x1D, CHR 0x1E, CHR 0x85})"

fun splitlines_from :: "string \<Rightarrow> string \<Rightarrow> string list" where
  "splitlines_from cur [] = (if cur = [] then [] else [cur])"
| "splitlines_from cur (c # cs) =
     (if c = CHR 0x0D then
        (case cs of
           [] \<Rightarrow> [cur]
         | d # ds \<Rightarrow> if d = CHR 0x0A then cur # splitlines_from [] ds
                     else cur # splitlines_from [] cs)
      else if is_linebreak c then cur # splitlines_from [] cs
      else splitlines_from (cur @ [c]) cs)"

definition splitlines :: "string \<Rightarrow> string list" where
  "splitlines text = splitlines_from [] text"

section \<open>The curses surface\<close>

text \<open>
  The calls a function makes on the curses screen, in the order it makes them.
  \<open>AddStr s\<close> is a call \<^verbatim>\<open>stdscr.addstr(s)\<close>; where the source wraps the call in
  \<^verbatim>\<open>try/except curses.error: pass\<close> the call is made and a failure changes nothing
  further, so the trace is the same.  The surface has the dimensions \<open>height\<close> and
  \<open>width\<close> that \<^verbatim>\<open>getmaxyx()\<close> returns.
\<close>

datatype event =
    CursSet int
  | GetMaxYX
  | Clear
  | AddStr string
  | AttrOn
  | AttrOff
  | Refresh
  | Getch
  | Move int int
  | ClrToEol

subsection \<open>safe_addstr\<close>

text \<open>
  The inner loop of the wrapping branch (lines 115 to 121):
  \<^verbatim>\<open>while len(line) > width: segment = line[:width]; addstr(segment + "\n"); line = line[width:]\<close>.
  It returns the calls made and the line left when the loop ends; \<open>None\<close> when the
  loop never ends.
\<close>

partial_function (option) wrap_loop :: "int \<Rightarrow> string \<Rightarrow> (event list \<times> string) option" where
  "wrap_loop width line =
     (if int (length line) > width then
        Option.bind (wrap_loop width (slice_from width line))
          (\<lambda>(evs, rest). Some (AddStr (slice_to width line @ ''\<newline>'') # evs, rest))
      else Some ([], line))"

declare wrap_loop.simps [code]

text \<open>The body of \<^verbatim>\<open>for original_line in text.splitlines()\<close> (lines 111 to 134).\<close>

definition addstr_line :: "int \<Rightarrow> bool \<Rightarrow> string \<Rightarrow> event list option" where
  "addstr_line width wrap original_line =
     (if wrap then
        map_option (\<lambda>(evs, line). evs @ [AddStr (line @ ''\<newline>'')])
          (wrap_loop width original_line)
      else
        Some [AddStr (if int (length original_line) > width
                      then slice_to (width - 1) original_line else original_line)])"

fun addstr_lines :: "int \<Rightarrow> bool \<Rightarrow> string list \<Rightarrow> event list option" where
  "addstr_lines width wrap [] = Some []"
| "addstr_lines width wrap (l # ls) =
     (case addstr_line width wrap l of
        None \<Rightarrow> None
      | Some evs \<Rightarrow> map_option (\<lambda>more. evs @ more) (addstr_lines width wrap ls))"

definition safe_addstr :: "int \<Rightarrow> string \<Rightarrow> bool \<Rightarrow> bool \<Rightarrow> event list option" where
  "safe_addstr width text wrap start_newline =
     map_option
       (\<lambda>evs. [GetMaxYX] @ evs @ (if start_newline then [AddStr ''\<newline>''] else []) @ [Refresh])
       (addstr_lines width wrap (splitlines text))"

subsection \<open>scrollable_select\<close>

text \<open>The key codes of curses that the selector tests, and \<^verbatim>\<open>ord\<close> of its letters.\<close>

definition KEY_DOWN :: int where "KEY_DOWN = 258"
definition KEY_UP :: int where "KEY_UP = 259"
definition KEY_HOME :: int where "KEY_HOME = 262"
definition KEY_NPAGE :: int where "KEY_NPAGE = 338"
definition KEY_PPAGE :: int where "KEY_PPAGE = 339"
definition KEY_ENTER :: int where "KEY_ENTER = 343"
definition KEY_END :: int where "KEY_END = 360"
definition ord_q :: int where "ord_q = 113"
definition ord_k :: int where "ord_k = 107"
definition ord_j :: int where "ord_j = 106"

lemmas key_defs =
  KEY_DOWN_def KEY_UP_def KEY_HOME_def KEY_NPAGE_def KEY_PPAGE_def KEY_ENTER_def
  KEY_END_def ord_q_def ord_k_def ord_j_def

record selection =
  selected_idx :: int
  top_line :: int

text \<open>
  The branches of the key dispatch that change the selection (lines 417 to 443), for a
  list of \<open>n\<close> items and \<open>max_lines = height - 4\<close>; any other key changes nothing.
\<close>

definition key_step :: "int \<Rightarrow> int \<Rightarrow> int \<Rightarrow> selection \<Rightarrow> selection" where
  "key_step n max_lines key s =
     (if key = KEY_UP \<or> key = ord_k then
        (let sel = max 0 (selected_idx s - 1)
         in \<lparr>selected_idx = sel, top_line = (if sel < top_line s then sel else top_line s)\<rparr>)
      else if key = KEY_DOWN \<or> key = ord_j then
        (let sel = min (n - 1) (selected_idx s + 1)
         in \<lparr>selected_idx = sel,
             top_line = (if sel \<ge> top_line s + max_lines then sel - max_lines + 1 else top_line s)\<rparr>)
      else if key = KEY_PPAGE then
        (let sel = max 0 (selected_idx s - max_lines)
         in \<lparr>selected_idx = sel, top_line = (if sel < top_line s then sel else top_line s)\<rparr>)
      else if key = KEY_NPAGE then
        (let sel = min (n - 1) (selected_idx s + max_lines)
         in \<lparr>selected_idx = sel,
             top_line = (if sel \<ge> top_line s + max_lines then sel - max_lines + 1 else top_line s)\<rparr>)
      else if key = KEY_HOME then \<lparr>selected_idx = 0, top_line = 0\<rparr>
      else if key = KEY_END then \<lparr>selected_idx = n - 1, top_line = max 0 (n - max_lines)\<rparr>
      else s)"

text \<open>The rows of the visible items (lines 389 to 397), \<open>i\<close> counting from 0.\<close>

fun draw_items :: "int \<Rightarrow> selection \<Rightarrow> int \<Rightarrow> string list \<Rightarrow> event list option" where
  "draw_items width s i [] = Some []"
| "draw_items width s i (line # lines) =
     (case safe_addstr width line False True of
        None \<Rightarrow> None
      | Some evs \<Rightarrow>
          map_option
            (\<lambda>more. (if top_line s + i = selected_idx s then [AttrOn] @ evs @ [AttrOff] else evs) @ more)
            (draw_items width s (i + 1) lines))"

definition help_line :: string where
  "help_line = ''[UP/DOWN] scroll, [PgUp/PgDn] faster scroll, '' @
               ''[Home/End], [Enter] select, [q] or [ESC] to cancel.''"

text \<open>One pass of the loop body up to the key read (lines 377 to 406).\<close>

definition draw_screen :: "int \<Rightarrow> int \<Rightarrow> string \<Rightarrow> string list \<Rightarrow> selection \<Rightarrow> event list option" where
  "draw_screen height width title items s =
     (case safe_addstr width (''=== '' @ title @ '' ==='' @ ''\<newline>'') True True of
        None \<Rightarrow> None
      | Some title_evs \<Rightarrow>
          (let max_lines = height - 4;
               visible_items = slice (top_line s) (top_line s + max_lines) items
           in case draw_items width s 0 visible_items of
                None \<Rightarrow> None
              | Some item_evs \<Rightarrow>
                  map_option (\<lambda>help_evs. [Clear] @ title_evs @ item_evs @ help_evs @ [Refresh])
                    (safe_addstr width help_line False True)))"

text \<open>
  The loop \<^verbatim>\<open>while True\<close> (lines 376 to 443), reading its keys from the list \<open>keys\<close>.
  The result is the value returned, the calls made on the screen and the keys not read.
  \<open>None\<close>: the function does not return (it waits for a key that never comes, or
  a drawing loop never ends).
\<close>

fun select_loop ::
  "int \<Rightarrow> int \<Rightarrow> string \<Rightarrow> string list \<Rightarrow> selection \<Rightarrow> int list \<Rightarrow> (int \<times> event list \<times> int list) option"
where
  "select_loop height width title items s [] = None"
| "select_loop height width title items s (key # keys) =
     (case draw_screen height width title items s of
        None \<Rightarrow> None
      | Some drawn \<Rightarrow>
          if key = ord_q \<or> key = 27 then Some (- 1, drawn @ [Getch], keys)
          else if key = KEY_ENTER \<or> key = 10 \<or> key = 13 then
            Some (selected_idx s, drawn @ [Getch], keys)
          else
            map_option (\<lambda>(r, evs, rest). (r, drawn @ [Getch] @ evs, rest))
              (select_loop height width title items
                 (key_step (int (length items)) (height - 4) key s) keys))"

definition scrollable_select ::
  "int \<Rightarrow> int \<Rightarrow> string \<Rightarrow> string list \<Rightarrow> int list \<Rightarrow> (int \<times> event list \<times> int list) option"
where
  "scrollable_select height width title items keys =
     (if items = [] then Some (- 1, [CursSet 0, GetMaxYX], keys)
      else
        map_option (\<lambda>(r, evs, rest). (r, [CursSet 0, GetMaxYX] @ evs, rest))
          (select_loop height width title items \<lparr>selected_idx = 0, top_line = 0\<rparr> keys))"

text \<open>
  The selection after the keys \<open>ks\<close>, none of which ends the loop: the state the loop
  holds when it has read them (lemma \<open>select_loop_run_keys\<close>).
\<close>

primrec run_keys :: "int \<Rightarrow> int \<Rightarrow> int list \<Rightarrow> selection \<Rightarrow> selection" where
  "run_keys n max_lines [] s = s"
| "run_keys n max_lines (k # ks) s = run_keys n max_lines ks (key_step n max_lines k s)"

section \<open>The aggregator\<close>

text \<open>\<^verbatim>\<open>str(n)\<close> for an integer: its decimal digits, with a minus sign when negative.\<close>

definition digit_char :: "nat \<Rightarrow> char" where
  "digit_char d = ''0123456789'' ! d"

function str_nat :: "nat \<Rightarrow> string" where
  "str_nat n = (if n < 10 then [digit_char n] else str_nat (n div 10) @ [digit_char (n mod 10)])"
  by pat_completeness auto
termination
  by (relation "measure id") auto

definition str_int :: "int \<Rightarrow> string" where
  "str_int i = (if i < 0 then ''-'' @ str_nat (nat (- i)) else str_nat (nat i))"

text \<open>
  A torrent as the aggregator reads it (\<^verbatim>\<open>torrent["hash"]\<close>, \<^verbatim>\<open>torrent["name"]\<close>) and
  a tracker of a lookup (\<^verbatim>\<open>tracker["url"]\<close>).
\<close>

record torrent =
  hash :: string
  name :: string

record tracker =
  url :: string

text \<open>
  The calls the aggregator makes, in the order it makes them: \<open>draw_progress_bar\<close>
  with its \<open>current\<close>, \<open>total\<close> and \<open>message\<close>, \<open>get_torrent_trackers\<close> with
  the hash it asks for, and \<open>stdscr.clear()\<close>.
\<close>

datatype call =
    DrawProgressBar int int string
  | GetTorrentTrackers string
  | ClearScreen

text \<open>
  \<open>tracker_map\<close>: a Python dict, kept as the list of its items in insertion order.
  \<open>dict_set\<close> is \<^verbatim>\<open>d[k] = v\<close>: an existing key keeps its place, a new key goes last.
\<close>

type_synonym tracker_map = "(string \<times> string list) list"

primrec dict_set :: "('k \<times> 'v) list \<Rightarrow> 'k \<Rightarrow> 'v \<Rightarrow> ('k \<times> 'v) list" where
  "dict_set [] k v = [(k, v)]"
| "dict_set (p # ps) k v = (if fst p = k then (k, v) # ps else p # dict_set ps k v)"

text \<open>
  The body of \<^verbatim>\<open>for tracker in torrent_trackers\<close> (lines 486 to 489).  The key is in
  the dict when its list is appended to, so the \<open>None\<close> case is never taken.
\<close>

definition add_tracker :: "tracker_map \<Rightarrow> string \<Rightarrow> string \<Rightarrow> tracker_map" where
  "add_tracker tracker_map tracker_url h =
     (let m = (if map_of tracker_map tracker_url = None
               then dict_set tracker_map tracker_url [] else tracker_map)
      in case map_of m tracker_url of
           Some hs \<Rightarrow> dict_set m tracker_url (hs @ [h])
         | None \<Rightarrow> m)"

primrec add_trackers :: "tracker_map \<Rightarrow> tracker list \<Rightarrow> string \<Rightarrow> tracker_map" where
  "add_trackers tracker_map [] h = tracker_map"
| "add_trackers tracker_map (t # ts) h = add_trackers (add_tracker tracker_map (url t) h) ts h"

definition progress_message :: "int \<Rightarrow> int \<Rightarrow> torrent \<Rightarrow> string" where
  "progress_message idx total_torrents t =
     ''Gathering trackers for torrent '' @ str_int idx @ ''/'' @ str_int total_torrents @
     '': '' @ name t"

text \<open>
  The loop over \<^verbatim>\<open>enumerate(torrents, start=1)\<close> (lines 479 to 489).  The lookup is
  outside the program: \<open>get_torrent_trackers idx h\<close> is what the lookup made for record
  \<open>idx\<close>, with hash \<open>h\<close>, returns.  The result is the dict and the calls made.
\<close>

fun aggregate_loop ::
  "(int \<Rightarrow> string \<Rightarrow> tracker list) \<Rightarrow> int \<Rightarrow> int \<Rightarrow> torrent list \<Rightarrow> tracker_map
     \<Rightarrow> tracker_map \<times> call list"
where
  "aggregate_loop get_torrent_trackers total_torrents idx [] tracker_map = (tracker_map, [])"
| "aggregate_loop get_torrent_trackers total_torrents idx (t # ts) tracker_map =
     (let message = progress_message idx total_torrents t;
          torrent_trackers = get_torrent_trackers idx (hash t);
          (m, calls) =
            aggregate_loop get_torrent_trackers total_torrents (idx + 1) ts
              (add_trackers tracker_map torrent_trackers (hash t))
      in (m, DrawProgressBar idx total_torrents message # GetTorrentTrackers (hash t) # calls))"

definition aggregate_trackers_for_each_torrent ::
  "(int \<Rightarrow> string \<Rightarrow> tracker list) \<Rightarrow> torrent list \<Rightarrow> tracker_map \<times> call list"
where
  "aggregate_trackers_for_each_torrent get_torrent_trackers torrents =
     (let (tracker_map, calls) =
            aggregate_loop get_torrent_trackers (int (length torrents)) 1 torrents []
      in (tracker_map, calls @ [ClearScreen]))"

text \<open>
  The tracker list of \<open>remove_tracker\<close> (lines 528 to 532): the keys sorted, and one
  display line for each.
\<close>

definition sorted_trackers :: "tracker_map \<Rightarrow> string list" where
  "sorted_trackers tracker_map = sort (map fst tracker_map)"

fun tracker_lines_from :: "tracker_map \<Rightarrow> int \<Rightarrow> string list \<Rightarrow> string list" where
  "tracker_lines_from tracker_map i [] = []"
| "tracker_lines_from tracker_map i (tracker_url # rest) =
     (str_int i @ ''. '' @ tracker_url @ '' - Found in '' @
      str_int (case map_of tracker_map tracker_url of Some hs \<Rightarrow> int (length hs) | None \<Rightarrow> 0) @
      '' torrents'')
     # tracker_lines_from tracker_map (i + 1) rest"

definition tracker_lines :: "tracker_map \<Rightarrow> string list" where
  "tracker_lines tracker_map = tracker_lines_from tracker_map 1 (sorted_trackers tracker_map)"

text \<open>
  The group of the key \<open>k\<close>: the hashes of the records, in input order, whose lookup
  reports \<open>k\<close>, each once for every time its lookup reports it.
\<close>

fun group_from :: "(int \<Rightarrow> string \<Rightarrow> tracker list) \<Rightarrow> string \<Rightarrow> int \<Rightarrow> torrent list \<Rightarrow> string list" where
  "group_from get_torrent_trackers k idx [] = []"
| "group_from get_torrent_trackers k idx (t # ts) =
     replicate (length (filter (\<lambda>tr. url tr = k) (get_torrent_trackers idx (hash t)))) (hash t)
     @ group_from get_torrent_trackers k (idx + 1) ts"

text \<open>The lookups and records of the examples.\<close>

definition scenario_lookup :: "int \<Rightarrow> string \<Rightarrow> tracker list" where
  "scenario_lookup idx h =
     (if h = ''p1'' then [\<lparr>url = ''t1''\<rparr>, \<lparr>url = ''t2''\<rparr>]
      else if h = ''p2'' then [\<lparr>url = ''t1''\<rparr>] else [])"

text \<open>The group of a key after more identifiers are appended to it.\<close>

definition extend_group :: "string list option \<Rightarrow> string list \<Rightarrow> string list option" where
  "extend_group old new =
     (case old of None \<Rightarrow> (if new = [] then None else Some new) | Some hs \<Rightarrow> Some (hs @ new))"

text \<open>
  In the calls \<open>calls\<close>, a progress draw for record \<open>idx\<close> comes after the first
  lookup of the hash \<open>h\<close>.
\<close>

fun is_lookup_of :: "string \<Rightarrow> call \<Rightarrow> bool" where
  "is_lookup_of h (GetTorrentTrackers h') = (h' = h)"
| "is_lookup_of h _ = False"

fun is_draw_of :: "int \<Rightarrow> call \<Rightarrow> bool" where
  "is_draw_of idx (DrawProgressBar i tot message) = (i = idx)"
| "is_draw_of idx _ = False"

definition drawn_after_lookup :: "call list \<Rightarrow> int \<Rightarrow> string \<Rightarrow> bool" where
  "drawn_after_lookup calls idx h =
     list_ex (is_draw_of idx) (dropWhile (\<lambda>c. \<not> is_lookup_of h c) calls)"

fun lookup_hash :: "call \<Rightarrow> string option" where
  "lookup_hash (GetTorrentTrackers h) = Some h"
| "lookup_hash _ = None"


definition twice_lookup :: "int \<Rightarrow> string \<Rightarrow> tracker list" where
  "twice_lookup idx h = [\<lparr>url = ''x''\<rparr>, \<lparr>url = ''x''\<rparr>]"


section \<open>URL validation\<close>

text \<open>
  \<open>validate_url\<close> reads the fields \<open>scheme\<close> and \<open>netloc\<close> of
  \<^verbatim>\<open>urllib.parse.urlparse(input_url)\<close>, a function of the Python standard library.  It
  is modelled here from the library's source (CPython 3.11, \<open>urlsplit\<close>) as far as
  these two fields go: leading C0 control characters and spaces are stripped, tab, CR
  and LF are removed, a scheme is split off at the first colon when what is before it
  is a letter followed by scheme characters, and the netloc is what follows a leading
  \<open>//\<close> up to the first of \<open>/\<close>, \<open>?\<close>, \<open>#\<close>.  \<open>urlparse\<close> raises
  ValueError on a netloc with one square bracket and not the other; its two other checks
  of the netloc (of the bracketed host as an IP address, and of the NFKC normal form of a
  netloc that is not ASCII) are the parameters \<open>check_bracketed_host\<close> and
  \<open>checknetloc\<close>, true when the check does not raise.
\<close>

datatype error = ValueError | OverflowError | ZeroDivisionError

definition c0_control_or_space :: "char \<Rightarrow> bool" where
  "c0_control_or_space c = ((of_char c :: nat) \<le> 32)"

definition unsafe_url_byte :: "char \<Rightarrow> bool" where
  "unsafe_url_byte c = (c \<in> {CHR 0x09, CHR 0x0A, CHR 0x0D})"

definition ascii_alpha :: "char \<Rightarrow> bool" where
  "ascii_alpha c =
     (let n = (of_char c :: nat) in (65 \<le> n \<and> n \<le> 90) \<or> (97 \<le> n \<and> n \<le> 122))"

definition scheme_char :: "char \<Rightarrow> bool" where
  "scheme_char c =
     (let n = (of_char c :: nat)
      in ascii_alpha c \<or> (48 \<le> n \<and> n \<le> 57) \<or> c \<in> {CHR ''+'', CHR ''-'', CHR ''.''})"

definition ascii_lower :: "char \<Rightarrow> char" where
  "ascii_lower c =
     (let n = (of_char c :: nat) in if 65 \<le> n \<and> n \<le> 90 then char_of (n + 32) else c)"

definition is_ascii :: "char \<Rightarrow> bool" where
  "is_ascii c = ((of_char c :: nat) < 128)"

definition netloc_delim :: "char \<Rightarrow> bool" where
  "netloc_delim c = (c \<in> {CHR ''/'', CHR ''?'', CHR ''#''})"

definition clean_url :: "string \<Rightarrow> string" where
  "clean_url urlstring = filter (\<lambda>c. \<not> unsafe_url_byte c) (dropWhile c0_control_or_space urlstring)"

definition split_scheme :: "string \<Rightarrow> string \<times> string" where
  "split_scheme urlstring =
     (let pre = takeWhile (\<lambda>c. c \<noteq> CHR '':'') urlstring
      in if CHR '':'' \<in> set urlstring \<and> pre \<noteq> [] \<and> ascii_alpha (hd pre) \<and> list_all scheme_char pre
         then (map ascii_lower pre, drop (length pre + 1) urlstring)
         else ([], urlstring))"

definition splitnetloc :: "string \<Rightarrow> string" where
  "splitnetloc urlstring =
     (if take 2 urlstring = ''//'' then takeWhile (\<lambda>c. \<not> netloc_delim c) (drop 2 urlstring) else [])"

definition bracketed_host :: "string \<Rightarrow> string" where
  "bracketed_host netloc =
     takeWhile (\<lambda>c. c \<noteq> CHR '']'') (drop 1 (dropWhile (\<lambda>c. c \<noteq> CHR ''['') netloc))"

record parse_result =
  scheme :: string
  netloc :: string

definition netloc_raises :: "(string \<Rightarrow> bool) \<Rightarrow> (string \<Rightarrow> bool) \<Rightarrow> string \<Rightarrow> bool" where
  "netloc_raises check_bracketed_host checknetloc nl =
     (if (CHR ''['' \<in> set nl \<and> CHR '']'' \<notin> set nl) \<or> (CHR '']'' \<in> set nl \<and> CHR ''['' \<notin> set nl)
      then True
      else if CHR ''['' \<in> set nl \<and> CHR '']'' \<in> set nl \<and> \<not> check_bracketed_host (bracketed_host nl)
      then True
      else if nl = [] \<or> list_all is_ascii nl then False
      else \<not> checknetloc nl)"

definition urlparse ::
  "(string \<Rightarrow> bool) \<Rightarrow> (string \<Rightarrow> bool) \<Rightarrow> string \<Rightarrow> error + parse_result" where
  "urlparse check_bracketed_host checknetloc urlstring =
     (let (sch, rest) = split_scheme (clean_url urlstring);
          nl = splitnetloc rest
      in if netloc_raises check_bracketed_host checknetloc nl then Inl ValueError
         else Inr \<lparr>scheme = sch, netloc = nl\<rparr>)"

text \<open>\<^verbatim>\<open>s.rstrip("/")\<close>.\<close>

definition rstrip_slash :: "string \<Rightarrow> string" where
  "rstrip_slash s = rev (dropWhile (\<lambda>c. c = CHR ''/'') (rev s))"

text \<open>
  \<open>validate_url\<close> (lines 188 to 211) and \<open>normalize_url\<close> (lines 213 to 240).  A
  ValueError of \<open>urlparse\<close> is not caught by either and is the result \<open>Inl\<close>.
\<close>

definition validate_url ::
  "(string \<Rightarrow> bool) \<Rightarrow> (string \<Rightarrow> bool) \<Rightarrow> string \<Rightarrow> error + (bool \<times> string)" where
  "validate_url check_bracketed_host checknetloc input_url =
     (if input_url = [] then Inr (False, ''The URL is empty.'')
      else case urlparse check_bracketed_host checknetloc input_url of
             Inl e \<Rightarrow> Inl e
           | Inr parsed \<Rightarrow>
               if scheme parsed = [] then
                 Inr (False, ''The URL is missing a scheme (e.g., http or https).'')
               else if netloc parsed = [] then
                 Inr (False, ''The URL is missing a valid domain or IP address.'')
               else Inr (True, []))"

definition normalize_url ::
  "(string \<Rightarrow> bool) \<Rightarrow> (string \<Rightarrow> bool) \<Rightarrow> string \<Rightarrow> string \<Rightarrow> error + string" where
  "normalize_url check_bracketed_host checknetloc input_url default_scheme =
     (if input_url = [] then Inr []
      else case validate_url check_bracketed_host checknetloc input_url of
             Inl e \<Rightarrow> Inl e
           | Inr (is_valid, error_message) \<Rightarrow>
               if \<not> is_valid then
                 (case urlparse check_bracketed_host checknetloc input_url of
                    Inl e \<Rightarrow> Inl e
                  | Inr parsed \<Rightarrow>
                      if scheme parsed = [] then
                        (let input_url' = default_scheme @ ''://'' @ input_url
                         in case validate_url check_bracketed_host checknetloc input_url' of
                              Inl e \<Rightarrow> Inl e
                            | Inr (is_valid', error_message') \<Rightarrow>
                                if \<not> is_valid' then Inr [] else Inr (rstrip_slash input_url'))
                      else Inr [])
               else Inr (rstrip_slash input_url))"

text \<open>Library checks that never raise, for the examples.\<close>

definition accept_all :: "string \<Rightarrow> bool" where
  "accept_all s = True"

section \<open>Properties stated of the model\<close>

text \<open>
  The invariants of the selection state for a list of \<open>n\<close> items shown
  \<open>visible_rows\<close> rows at a time.
\<close>

definition selection_invariant :: "int \<Rightarrow> int \<Rightarrow> selection \<Rightarrow> bool" where
  "selection_invariant n visible_rows s =
     (0 \<le> selected_idx s \<and> selected_idx s < n \<and>
      0 \<le> top_line s \<and> top_line s \<le> selected_idx s \<and>
      selected_idx s < top_line s + visible_rows)"

text \<open>
  What it is for a line to be written wrapped at \<open>width\<close> as the segments \<open>segs\<close>:
  the segments are the line cut in order, every segment but the last is \<open>width\<close> long,
  the last one (the remainder) is at most \<open>width\<close> long, and it is empty only when the
  line is.
\<close>

definition wrapped :: "int \<Rightarrow> string \<Rightarrow> string list \<Rightarrow> bool" where
  "wrapped width line segs =
     (segs \<noteq> [] \<and> concat segs = line \<and>
      (\<forall>seg \<in> set (butlast segs). int (length seg) = width) \<and>
      int (length (last segs)) \<le> width \<and>
      (line \<noteq> [] \<longrightarrow> last segs \<noteq> []))"

text \<open>The selected index is an index of the list of \<open>n\<close> items.\<close>

definition index_in_range :: "int \<Rightarrow> selection \<Rightarrow> bool" where
  "index_in_range n s = (0 \<le> selected_idx s \<and> selected_idx s < n)"

text \<open>The keys that end the loop: \<open>q\<close>, ESC, and the three codes of Enter.\<close>

definition ends_loop :: "int \<Rightarrow> bool" where
  "ends_loop key = (key = ord_q \<or> key = 27 \<or> key = KEY_ENTER \<or> key = 10 \<or> key = 13)"

section \<open>The selector: paging\<close>

lemma replicate_numeral_unfold: "replicate (numeral k) x = x # replicate (pred_numeral k) x"
  by (simp add: numeral_eq_Suc)

text \<open>
  Claim C1, as the code has it.  A list of 100 items on a surface of 14 rows
  (\<open>visible_rows = 14 - 4 = 10\<close>), from \<open>selected_idx = top_line = 0\<close>: nine presses
  of page-down leave \<open>selected_idx = 90\<close> and \<open>top_line = 81\<close> (the least top line
  that keeps row 90 visible), and a tenth press clamps \<open>selected_idx\<close> at 99 with
  \<open>top_line = 90\<close>.
\<close>

theorem page_down_nine_times:
  "run_keys (int (length (replicate 100 item))) (14 - 4) (replicate 9 KEY_NPAGE)
       \<lparr>selected_idx = 0, top_line = 0\<rparr>
     = \<lparr>selected_idx = 90, top_line = 81\<rparr>
   \<and> run_keys (int (length (replicate 100 item))) (14 - 4) (replicate 10 KEY_NPAGE)
       \<lparr>selected_idx = 0, top_line = 0\<rparr>
     = \<lparr>selected_idx = 99, top_line = 90\<rparr>"
  by (simp add: replicate_numeral_unfold key_step_def key_defs)

text \<open>
  The claim as the specification states it (\<open>top_index = 90\<close> after nine presses) is
  false of the code.
\<close>

theorem page_down_nine_times_not_top_90:
  "run_keys (int (length (replicate 100 ''item''))) (14 - 4) (replicate 9 KEY_NPAGE)
       \<lparr>selected_idx = 0, top_line = 0\<rparr>
     \<noteq> \<lparr>selected_idx = 90, top_line = 90\<rparr>"
  by (simp add: replicate_numeral_unfold key_step_def key_defs)

section \<open>The selector: invariants under up and down\<close>

lemma move_up_invariant:
  assumes "selection_invariant n v s" "1 \<le> v" "sel = max 0 (selected_idx s - d)" "0 \<le> d"
  shows "selection_invariant n v
           \<lparr>selected_idx = sel, top_line = (if sel < top_line s then sel else top_line s)\<rparr>"
proof (cases "sel < top_line s")
  case True
  then show ?thesis using assms unfolding selection_invariant_def min_def max_def by (simp split: if_splits)
next
  case False
  then show ?thesis using assms unfolding selection_invariant_def min_def max_def by (simp split: if_splits)
qed

lemma move_down_invariant:
  assumes "selection_invariant n v s" "1 \<le> v" "sel = min (n - 1) (selected_idx s + d)" "0 \<le> d"
  shows "selection_invariant n v
           \<lparr>selected_idx = sel,
            top_line = (if sel \<ge> top_line s + v then sel - v + 1 else top_line s)\<rparr>"
proof (cases "sel \<ge> top_line s + v")
  case True
  then show ?thesis using assms unfolding selection_invariant_def min_def max_def by (simp split: if_splits)
next
  case False
  then show ?thesis using assms unfolding selection_invariant_def min_def max_def by (simp split: if_splits)
qed

lemma key_step_invariant:
  assumes "0 < n" and "1 \<le> v" and "selection_invariant n v s"
  shows "selection_invariant n v (key_step n v k s)"
proof -
  note up = move_up_invariant [OF assms(3) assms(2) refl]
  note down = move_down_invariant [OF assms(3) assms(2) refl]
  have home: "selection_invariant n v \<lparr>selected_idx = 0, top_line = 0\<rparr>"
    using assms by (simp add: selection_invariant_def)
  have last: "selection_invariant n v \<lparr>selected_idx = n - 1, top_line = max 0 (n - v)\<rparr>"
    using assms(1,2) unfolding selection_invariant_def max_def by simp
  show ?thesis
    unfolding key_step_def Let_def
    using up [of 1] up [of v] down [of 1] down [of v] home last assms(2,3) by simp
qed

lemma run_keys_invariant:
  "0 < n \<Longrightarrow> 1 \<le> v \<Longrightarrow> selection_invariant n v s \<Longrightarrow>
   selection_invariant n v (run_keys n v ks s)"
  by (induction ks arbitrary: s) (simp_all add: key_step_invariant)

text \<open>
  Claim C4, amended.  For a non-empty item list on a surface that shows at least one row
  (\<open>visible_rows = height - 4 \<ge> 1\<close>), and any sequence \<open>ks\<close> of up and down keys
  read from the initial selection, the invariants hold after each of the transitions
  (after the first \<open>i\<close> keys, for every \<open>i\<close>).
\<close>

theorem up_down_keeps_invariant:
  assumes "items \<noteq> []" and "1 \<le> height - 4"
    and "set ks \<subseteq> {KEY_UP, ord_k, KEY_DOWN, ord_j}" and "i \<le> length ks"
  shows "selection_invariant (int (length items)) (height - 4)
           (run_keys (int (length items)) (height - 4) (take i ks)
              \<lparr>selected_idx = 0, top_line = 0\<rparr>)"
proof -
  have "selection_invariant (int (length items)) (height - 4) \<lparr>selected_idx = 0, top_line = 0\<rparr>"
    using assms(1,2) by (simp add: selection_invariant_def)
  then show ?thesis
    using assms(1,2) by (intro run_keys_invariant) auto
qed

theorem up_down_keeps_invariant_witness:
  "[''a'', ''b'', ''c''] \<noteq> [] \<and> (1::int) \<le> 6 - 4 \<and>
   set [KEY_DOWN, ord_j, KEY_UP] \<subseteq> {KEY_UP, ord_k, KEY_DOWN, ord_j} \<and>
   (2::nat) \<le> length [KEY_DOWN, ord_j, KEY_UP] \<and>
   selection_invariant (int (length [''a'', ''b'', ''c''])) (6 - 4)
     (run_keys (int (length [''a'', ''b'', ''c''])) (6 - 4) (take 2 [KEY_DOWN, ord_j, KEY_UP])
        \<lparr>selected_idx = 0, top_line = 0\<rparr>)"
  using up_down_keeps_invariant [of "[''a'', ''b'', ''c'']" 6 "[KEY_DOWN, ord_j, KEY_UP]" 2]
  by simp

text \<open>
  Without the bound on the height the claim fails: on a surface of 4 rows
  (\<open>visible_rows = 0\<close>) one press of down on a list of two items leaves
  \<open>selected_idx = 1\<close> and \<open>top_line = 2\<close>.
\<close>

theorem up_down_invariant_fails_on_4_rows:
  "\<not> selection_invariant (int (length [''a'', ''b''])) (4 - 4)
       (run_keys (int (length [''a'', ''b''])) (4 - 4) [KEY_DOWN]
          \<lparr>selected_idx = 0, top_line = 0\<rparr>)"
  by (simp add: selection_invariant_def key_step_def key_defs)

section \<open>The selector: the empty list\<close>

text \<open>
  Claim C7.  On an empty item list \<open>scrollable_select\<close> returns \<open>-1\<close> at once: the
  only calls made are \<open>curs_set(0)\<close> and \<open>getmaxyx()\<close> (nothing is drawn, no key
  is read), and every key is left unread.
\<close>

theorem scrollable_select_empty:
  "scrollable_select height width title [] keys = Some (- 1, [CursSet 0, GetMaxYX], keys)"
  by (simp add: scrollable_select_def)

section \<open>The bounded renderer: wrapping\<close>

lemma slice_from_nonneg: "0 \<le> w \<Longrightarrow> slice_from w xs = drop (nat w) xs"
  by (simp add: slice_from_def py_index_def min_def)

lemma slice_to_nonneg: "0 \<le> w \<Longrightarrow> slice_to w xs = take (nat w) xs"
  by (simp add: slice_to_def py_index_def min_def)




lemma wrap_loop_total:
  assumes "0 < w"
  shows "\<exists>segs rest.
           wrap_loop w line = Some (map (\<lambda>seg. AddStr (seg @ ''\<newline>'')) segs, rest) \<and>
           (\<forall>seg \<in> set segs. int (length seg) = w) \<and> int (length rest) \<le> w \<and>
           concat segs @ rest = line \<and> (line \<noteq> [] \<longrightarrow> rest \<noteq> [])"
proof (induction "length line" arbitrary: line rule: less_induct)
  case less
  show ?case
  proof (cases "w < int (length line)")
    case False
    then have "wrap_loop w line = Some (map (\<lambda>seg. AddStr (seg @ ''\<newline>'')) [], line)"
      by (subst wrap_loop.simps) simp
    with False show ?thesis by fastforce
  next
    case True
    let ?l = "drop (nat w) line"
    have lt: "nat w < length line" using True assms by arith
    have shorter: "length ?l < length line" using lt assms by simp
    have nonempty: "?l \<noteq> []" using lt by simp
    from less [OF shorter] nonempty obtain segs rest where
      r: "wrap_loop w ?l = Some (map (\<lambda>seg. AddStr (seg @ ''\<newline>'')) segs, rest)"
      and segs: "\<forall>seg \<in> set segs. int (length seg) = w"
      and rest: "int (length rest) \<le> w" "concat segs @ rest = ?l" "rest \<noteq> []"
      by blast
    have "wrap_loop w line =
            Some (map (\<lambda>seg. AddStr (seg @ ''\<newline>'')) (take (nat w) line # segs), rest)"
      using True assms r
      by (subst wrap_loop.simps) (simp add: slice_from_nonneg slice_to_nonneg)
    moreover have "int (length (take (nat w) line)) = w" using lt assms by simp
    moreover have "concat (take (nat w) line # segs) @ rest = line" using rest(2) by simp
    ultimately show ?thesis using segs rest(1,3) 
      by (intro exI [of _ "take (nat w) line # segs"] exI [of _ rest]) simp
  qed
qed

lemma addstr_line_wrap:
  assumes "0 < w"
  shows "\<exists>segs. addstr_line w True line = Some (map (\<lambda>seg. AddStr (seg @ ''\<newline>'')) segs) \<and>
                  wrapped w line segs"
proof -
  from wrap_loop_total [OF assms, of line] obtain segs rest where
    r: "wrap_loop w line = Some (map (\<lambda>seg. AddStr (seg @ ''\<newline>'')) segs, rest)"
    and p: "\<forall>seg \<in> set segs. int (length seg) = w" "int (length rest) \<le> w"
      "concat segs @ rest = line" "line \<noteq> [] \<longrightarrow> rest \<noteq> []"
    by blast
  have "addstr_line w True line = Some (map (\<lambda>seg. AddStr (seg @ ''\<newline>'')) (segs @ [rest]))"
    by (simp add: addstr_line_def r)
  moreover have "wrapped w line (segs @ [rest])"
    using p by (simp add: wrapped_def)
  ultimately show ?thesis by blast
qed

lemma addstr_lines_wrap:
  assumes "0 < w"
  shows "\<exists>chunks. addstr_lines w True ls
                      = Some (map (\<lambda>seg. AddStr (seg @ ''\<newline>'')) (concat chunks)) \<and>
                    list_all2 (wrapped w) ls chunks"
proof (induction ls)
  case Nil
  show ?case by simp
next
  case (Cons l ls)
  from addstr_line_wrap [OF assms, of l] obtain segs where
    s: "addstr_line w True l = Some (map (\<lambda>seg. AddStr (seg @ ''\<newline>'')) segs)" "wrapped w l segs"
    by blast
  from Cons obtain chunks where
    c: "addstr_lines w True ls = Some (map (\<lambda>seg. AddStr (seg @ ''\<newline>'')) (concat chunks))"
      "list_all2 (wrapped w) ls chunks"
    by blast
  have "addstr_lines w True (l # ls)
          = Some (map (\<lambda>seg. AddStr (seg @ ''\<newline>'')) (concat (segs # chunks)))"
    by (simp add: s(1) c(1))
  moreover have "list_all2 (wrapped w) (l # ls) (segs # chunks)" using s(2) c(2) by simp
  ultimately show ?case by blast
qed









section \<open>The selector: the value returned\<close>

lemma safe_addstr_wrap_total:
  "0 < w \<Longrightarrow> \<exists>evs. safe_addstr w str True nl = Some evs"
  using addstr_lines_wrap [of w "splitlines str"] by (auto simp: safe_addstr_def)

lemma addstr_lines_nowrap_total: "\<exists>evs. addstr_lines w False ls = Some evs"
  by (induction ls) (auto simp: addstr_line_def)

lemma safe_addstr_nowrap_total: "\<exists>evs. safe_addstr w str False nl = Some evs"
  using addstr_lines_nowrap_total [of w "splitlines str"] by (auto simp: safe_addstr_def)

lemma draw_items_total: "\<exists>evs. draw_items w s i ls = Some evs"
proof (induction ls arbitrary: i)
  case Nil
  show ?case by simp
next
  case (Cons l ls)
  from safe_addstr_nowrap_total [of w l True] obtain evs where
    e: "safe_addstr w l False True = Some evs" by blast
  from Cons [of "i + 1"] obtain more where m: "draw_items w s (i + 1) ls = Some more" by blast
  show ?case by (simp add: e m)
qed

lemma draw_screen_total:
  assumes "0 < w"
  shows "\<exists>evs. draw_screen h w t items s = Some evs"
proof -
  from safe_addstr_wrap_total [OF assms] obtain e1 where
    e1: "safe_addstr w (''=== '' @ t @ '' ==='' @ ''\<newline>'') True True = Some e1" by blast
  from draw_items_total obtain e2 where
    e2: "draw_items w s 0 (slice (top_line s) (top_line s + (h - 4)) items) = Some e2" by blast
  from safe_addstr_nowrap_total obtain e3 where
    e3: "safe_addstr w help_line False True = Some e3" by blast
  show ?thesis using e1 e2 e3 by (simp add: draw_screen_def)
qed

lemma key_step_index_in_range:
  assumes "0 < n" and "0 \<le> m" and "index_in_range n s"
  shows "index_in_range n (key_step n m k s)"
proof -
  have a: "0 \<le> selected_idx s" "selected_idx s < n"
    using assms(3) by (simp_all add: index_in_range_def)
  have up: "0 \<le> max 0 (selected_idx s - d) \<and> max 0 (selected_idx s - d) < n" if "0 \<le> d" for d
    using a that by (simp add: max_def)
  have down: "0 \<le> min (n - 1) (selected_idx s + d) \<and> min (n - 1) (selected_idx s + d) < n"
    if "0 \<le> d" for d
    using a that assms(1) by (simp add: min_def)
  show ?thesis
    unfolding key_step_def Let_def index_in_range_def
    using up [of 1] up [of m] down [of 1] down [of m] a assms(1,2) by simp
qed

lemma select_loop_result_in_range:
  assumes "items \<noteq> []" and "4 \<le> h"
  shows "select_loop h w t items s keys = Some (r, evs, rest) \<Longrightarrow>
         index_in_range (int (length items)) s \<Longrightarrow>
         r = - 1 \<or> (0 \<le> r \<and> r < int (length items))"
proof (induction keys arbitrary: s r evs rest)
  case Nil
  then show ?case by simp
next
  case (Cons key keys)
  from Cons.prems(1) obtain drawn where d: "draw_screen h w t items s = Some drawn"
    by (cases "draw_screen h w t items s") simp_all
  show ?case
  proof (cases "key = ord_q \<or> key = 27")
    case True
    with Cons.prems(1) d show ?thesis by simp
  next
    case nq: False
    show ?thesis
    proof (cases "key = KEY_ENTER \<or> key = 10 \<or> key = 13")
      case True
      with Cons.prems nq d show ?thesis by (auto simp: index_in_range_def)
    next
      case ne: False
      let ?s' = "key_step (int (length items)) (h - 4) key s"
      from Cons.prems(1) nq ne d obtain evs' where
        "select_loop h w t items ?s' keys = Some (r, evs', rest)"
        by auto
      moreover have "index_in_range (int (length items)) ?s'"
        using assms Cons.prems(2) by (intro key_step_index_in_range) simp_all
      ultimately show ?thesis by (rule Cons.IH)
    qed
  qed
qed

lemma select_loop_returns:
  assumes "0 < w"
  shows "\<exists>k \<in> set keys. ends_loop k \<Longrightarrow> \<exists>res. select_loop h w t items s keys = Some res"
proof (induction keys arbitrary: s)
  case Nil
  then show ?case by simp
next
  case (Cons key keys)
  from draw_screen_total [OF assms] obtain drawn where
    d: "draw_screen h w t items s = Some drawn" by blast
  show ?case
  proof (cases "ends_loop key")
    case True
    then show ?thesis using d by (auto simp: ends_loop_def)
  next
    case False
    with Cons.prems have "\<exists>k \<in> set keys. ends_loop k" by simp
    from Cons.IH [OF this, of "key_step (int (length items)) (h - 4) key s"] obtain res where
      "select_loop h w t items (key_step (int (length items)) (h - 4) key s) keys = Some res"
      by blast
    then show ?thesis using d False by (auto simp: ends_loop_def split: prod.splits)
  qed
qed

lemma select_loop_run_keys:
  assumes "0 < w"
  shows "\<forall>k \<in> set ks. \<not> ends_loop k \<Longrightarrow>
         map_option fst (select_loop h w t items s (ks @ rest))
           = map_option fst
               (select_loop h w t items (run_keys (int (length items)) (h - 4) ks s) rest)"
proof (induction ks arbitrary: s)
  case Nil
  show ?case by simp
next
  case (Cons key ks)
  from draw_screen_total [OF assms] obtain drawn where
    d: "draw_screen h w t items s = Some drawn" by blast
  from Cons.prems have k: "\<not> ends_loop key" and ks: "\<forall>k \<in> set ks. \<not> ends_loop k" by simp_all
  have "map_option fst (select_loop h w t items s ((key # ks) @ rest))
          = map_option fst
              (select_loop h w t items (key_step (int (length items)) (h - 4) key s) (ks @ rest))"
    using d k by (auto simp: ends_loop_def option.map_comp comp_def split_beta)
  then show ?case using Cons.IH [OF ks] by simp
qed

text \<open>
  Claim C9 fails on a surface of 3 rows, where \<open>max_lines = 3 - 4 = -1\<close>: page-up
  computes \<open>max(0, selected_idx - max_lines) = selected_idx + 1\<close> with no upper
  clamp, so on a list of one item page-up and then Enter return 1, which is neither
  \<open>-1\<close> nor an index of the list.  (On a surface of at least 4 rows the value
  returned is \<open>-1\<close> or an index of the list: lemma \<open>select_loop_result_in_range\<close>.)
\<close>

theorem scrollable_select_3_rows_returns_len:
  "map_option fst
     (scrollable_select 3 80 ''Remove a Tracker'' [''1. x - Found in 1 torrents''] [KEY_PPAGE, 10])
   = Some 1"
  by code_simp

section \<open>The aggregator: groups and calls\<close>

lemma map_of_dict_set: "map_of (dict_set m k v) k' = (if k' = k then Some v else map_of m k')"
  by (induction m) auto

lemma keys_dict_set:
  "map fst (dict_set m k v) = (if k \<in> fst ` set m then map fst m else map fst m @ [k])"
  by (induction m) auto

lemma distinct_dict_set: "distinct (map fst m) \<Longrightarrow> distinct (map fst (dict_set m k v))"
  by (simp add: keys_dict_set)

lemma map_of_add_tracker:
  "map_of (add_tracker m u h) k =
     (if k = u then Some ((case map_of m u of None \<Rightarrow> [] | Some hs \<Rightarrow> hs) @ [h])
      else map_of m k)"
  by (cases "map_of m u") (simp_all add: add_tracker_def map_of_dict_set)

lemma distinct_add_tracker:
  "distinct (map fst m) \<Longrightarrow> distinct (map fst (add_tracker m u h))"
  by (cases "map_of m u") (simp_all add: add_tracker_def map_of_dict_set distinct_dict_set)

lemma extend_group_nil [simp]: "extend_group old [] = old"
  by (simp add: extend_group_def split: option.splits)

lemma extend_group_append:
  "extend_group (extend_group old xs) ys = extend_group old (xs @ ys)"
  by (simp add: extend_group_def split: option.splits)

lemma map_of_add_trackers:
  "map_of (add_trackers m trs h) k
     = extend_group (map_of m k) (replicate (length (filter (\<lambda>tr. url tr = k) trs)) h)"
proof (induction trs arbitrary: m)
  case Nil
  show ?case by simp
next
  case (Cons t trs)
  show ?case
  proof (cases "url t = k")
    case True
    have "map_of (add_tracker m (url t) h) k = extend_group (map_of m k) [h]"
      using True by (simp add: map_of_add_tracker extend_group_def split: option.splits)
    then show ?thesis
      using True by (simp add: Cons.IH extend_group_append)
  next
    case False
    then have "map_of (add_tracker m (url t) h) k = map_of m k"
      by (auto simp: map_of_add_tracker)
    then show ?thesis using False by (simp add: Cons.IH)
  qed
qed

lemma distinct_add_trackers:
  "distinct (map fst m) \<Longrightarrow> distinct (map fst (add_trackers m trs h))"
  by (induction trs arbitrary: m) (simp_all add: distinct_add_tracker)

lemma map_of_aggregate_loop:
  "map_of (fst (aggregate_loop get tot idx ts m)) k
     = extend_group (map_of m k) (group_from get k idx ts)"
proof (induction ts arbitrary: idx m)
  case Nil
  show ?case by simp
next
  case (Cons t ts)
  show ?case
    by (simp add: Let_def split_beta Cons.IH map_of_add_trackers extend_group_append)
qed

lemma distinct_aggregate_loop:
  "distinct (map fst m) \<Longrightarrow> distinct (map fst (fst (aggregate_loop get tot idx ts m)))"
  by (induction ts arbitrary: idx m) (simp_all add: Let_def split_beta distinct_add_trackers)

lemma calls_aggregate_loop:
  "snd (aggregate_loop get tot idx ts m)
     = concat (map (\<lambda>(i, t). [DrawProgressBar (idx + int i) tot (progress_message (idx + int i) tot t),
                              GetTorrentTrackers (hash t)])
                 (enumerate 0 ts))"
proof (induction ts arbitrary: idx m)
  case Nil
  show ?case by simp
next
  case (Cons t ts)
  have "enumerate 0 (t # ts) = (0, t) # map (\<lambda>(i, t). (Suc i, t)) (enumerate 0 ts)"
    by (simp add: enumerate_Suc_eq split_def apfst_def map_prod_def)
  then show ?case
    by (simp add: Let_def split_beta Cons.IH [of "idx + 1"] comp_def add.assoc)
qed

lemma map_of_aggregate:
  "map_of (fst (aggregate_trackers_for_each_torrent get ts)) k
     = (if group_from get k 1 ts = [] then None else Some (group_from get k 1 ts))"
  by (simp add: aggregate_trackers_for_each_torrent_def split_beta map_of_aggregate_loop
      extend_group_def)

lemma distinct_aggregate:
  "distinct (map fst (fst (aggregate_trackers_for_each_torrent get ts)))"
  by (simp add: aggregate_trackers_for_each_torrent_def split_beta distinct_aggregate_loop)

lemma lookups_aggregate_loop:
  "List.map_filter lookup_hash (snd (aggregate_loop get tot idx ts m)) = map hash ts"
  by (induction ts arbitrary: idx m) (simp_all add: Let_def split_beta List.map_filter_simps)

lemma map_filter_append:
  "List.map_filter f (xs @ ys) = List.map_filter f xs @ List.map_filter f ys"
  by (simp add: List.map_filter_def)

lemma group_from_member:
  "h \<in> set (group_from get k idx ts) \<Longrightarrow>
   \<exists>i < length ts. hash (ts ! i) = h \<and> k \<in> url ` set (get (idx + int i) (hash (ts ! i)))"
proof (induction ts arbitrary: idx)
  case Nil
  then show ?case by simp
next
  case (Cons t ts)
  let ?n = "length (filter (\<lambda>tr. url tr = k) (get idx (hash t)))"
  from Cons.prems have "h \<in> set (replicate ?n (hash t)) \<or> h \<in> set (group_from get k (idx + 1) ts)"
    by simp
  then show ?case
  proof
    assume "h \<in> set (replicate ?n (hash t))"
    then have h: "h = hash t" and n: "?n \<noteq> 0" by (simp_all add: set_replicate_conv_if split: if_splits)
    from n have "filter (\<lambda>tr. url tr = k) (get idx (hash t)) \<noteq> []" by simp
    then obtain tr where "tr \<in> set (get idx (hash t))" "url tr = k"
      by (auto simp: filter_empty_conv)
    then have "k \<in> url ` set (get idx (hash t))" by blast
    with h have "0 < length (t # ts) \<and> hash ((t # ts) ! 0) = h \<and>
                 k \<in> url ` set (get (idx + int 0) (hash ((t # ts) ! 0)))"
      by simp
    then show ?thesis by blast
  next
    assume "h \<in> set (group_from get k (idx + 1) ts)"
    from Cons.IH [OF this] obtain i where
      i: "i < length ts" "hash (ts ! i) = h" "k \<in> url ` set (get (idx + 1 + int i) (hash (ts ! i)))"
      by blast
    have "idx + 1 + int i = idx + int (Suc i)" by simp
    with i have "Suc i < length (t # ts) \<and> hash ((t # ts) ! Suc i) = h \<and>
               k \<in> url ` set (get (idx + int (Suc i)) (hash ((t # ts) ! Suc i)))"
      by simp
    then show ?thesis by blast
  qed
qed



lemma length_tracker_lines_from: "length (tracker_lines_from tracker_map i trackers) = length trackers"
  by (induction trackers arbitrary: i) simp_all

lemma length_tracker_lines: "length (tracker_lines tracker_map) = length (sorted_trackers tracker_map)"
  by (simp add: tracker_lines_def length_tracker_lines_from)

text \<open>
  Claim C2, amended.  The aggregator handles the records one after the other in input
  order, and for each record it first draws the progress bar (with the record's
  1-based index, the number of records and the message of line 481) and then makes
  the record's lookup; it clears the screen once at the end.  No lookup is skipped:
  the lookups made are those of the records' hashes, in input order.
\<close>

theorem aggregate_calls_in_order:
  "snd (aggregate_trackers_for_each_torrent get_torrent_trackers torrents)
     = concat (map (\<lambda>(i, t).
                      [DrawProgressBar (1 + int i) (int (length torrents))
                         (progress_message (1 + int i) (int (length torrents)) t),
                       GetTorrentTrackers (hash t)])
                 (enumerate 0 torrents))
       @ [ClearScreen]
   \<and> List.map_filter lookup_hash
       (snd (aggregate_trackers_for_each_torrent get_torrent_trackers torrents))
     = map hash torrents"
proof (intro conjI)
  show "snd (aggregate_trackers_for_each_torrent get_torrent_trackers torrents)
     = concat (map (\<lambda>(i, t).
                      [DrawProgressBar (1 + int i) (int (length torrents))
                         (progress_message (1 + int i) (int (length torrents)) t),
                       GetTorrentTrackers (hash t)])
                 (enumerate 0 torrents))
       @ [ClearScreen]"
    by (simp add: aggregate_trackers_for_each_torrent_def split_beta calls_aggregate_loop)
  show "List.map_filter lookup_hash
       (snd (aggregate_trackers_for_each_torrent get_torrent_trackers torrents))
     = map hash torrents"
    by (simp add: aggregate_trackers_for_each_torrent_def split_beta lookups_aggregate_loop
        map_filter_append List.map_filter_simps)
qed

text \<open>
  The claim as stated (the draw comes after the record's lookup) is false of the code:
  for a single record no progress draw follows the lookup.
\<close>

theorem aggregate_draws_before_lookup:
  "\<not> drawn_after_lookup
       (snd (aggregate_trackers_for_each_torrent scenario_lookup [\<lparr>hash = ''p1'', name = ''one''\<rparr>]))
       1 ''p1''"
  by (simp add: aggregate_trackers_for_each_torrent_def drawn_after_lookup_def)


text \<open>
  Claim C10.  Every key of the dict returned maps to a non-empty list of hashes; the
  list is the group of the key, so each entry is the hash of a record whose lookup
  reports the key, and a record's hash is there once for every time its lookup reports
  the key (twice when the lookup lists the key twice, as in the witness).
\<close>

theorem aggregate_groups_nonempty:
  assumes "(k, hs) \<in> set (fst (aggregate_trackers_for_each_torrent get_torrent_trackers torrents))"
  shows "hs \<noteq> [] \<and> hs = group_from get_torrent_trackers k 1 torrents \<and>
         (\<forall>h \<in> set hs. \<exists>i < length torrents.
            hash (torrents ! i) = h \<and>
            k \<in> url ` set (get_torrent_trackers (1 + int i) (hash (torrents ! i))))"
proof -
  from assms distinct_aggregate [of get_torrent_trackers torrents]
  have "map_of (fst (aggregate_trackers_for_each_torrent get_torrent_trackers torrents)) k = Some hs"
    by simp
  then have ne: "group_from get_torrent_trackers k 1 torrents \<noteq> []"
    and hs: "hs = group_from get_torrent_trackers k 1 torrents"
    by (simp_all add: map_of_aggregate split: if_splits)
  have "\<exists>i < length torrents.
            hash (torrents ! i) = h \<and>
            k \<in> url ` set (get_torrent_trackers (1 + int i) (hash (torrents ! i)))"
    if "h \<in> set hs" for h
    using that hs group_from_member [of h get_torrent_trackers k 1 torrents] by simp
  then have "\<forall>h \<in> set hs. \<exists>i < length torrents.
            hash (torrents ! i) = h \<and>
            k \<in> url ` set (get_torrent_trackers (1 + int i) (hash (torrents ! i)))"
    by (rule ballI)
  with ne hs show ?thesis by simp
qed

theorem aggregate_groups_nonempty_witness:
  "(''x'', [''h'', ''h'']) \<in> set (fst (aggregate_trackers_for_each_torrent twice_lookup
                                        [\<lparr>hash = ''h'', name = ''n''\<rparr>])) \<and>
   [''h'', ''h''] \<noteq> ([] :: string list) \<and>
   [''h'', ''h''] = group_from twice_lookup ''x'' 1 [\<lparr>hash = ''h'', name = ''n''\<rparr>] \<and>
   fst (aggregate_trackers_for_each_torrent twice_lookup [\<lparr>hash = ''h'', name = ''n''\<rparr>])
     = [(''x'', [''h'', ''h''])]"
proof -
  have m: "fst (aggregate_trackers_for_each_torrent twice_lookup [\<lparr>hash = ''h'', name = ''n''\<rparr>])
     = [(''x'', [''h'', ''h''])]"
    by code_simp
  then have mem: "(''x'', [''h'', ''h'']) \<in> set (fst (aggregate_trackers_for_each_torrent twice_lookup
                                        [\<lparr>hash = ''h'', name = ''n''\<rparr>]))"
    by simp
  from aggregate_groups_nonempty [OF mem] m mem show ?thesis by (simp add: twice_lookup_def)
qed

section \<open>URL validation and normalisation\<close>

lemma slash_facts:
  "\<not> c0_control_or_space CHR ''/''" "\<not> unsafe_url_byte CHR ''/''" "netloc_delim CHR ''/''"
  by (simp_all add: c0_control_or_space_def unsafe_url_byte_def netloc_delim_def)

lemma rstrip_slash_decomp: "\<exists>sl. x = rstrip_slash x @ sl \<and> set sl \<subseteq> {CHR ''/''}"
proof -
  let ?P = "\<lambda>c. c = CHR ''/''"
  have "rev (dropWhile ?P (rev x)) @ rev (takeWhile ?P (rev x))
          = rev (takeWhile ?P (rev x) @ dropWhile ?P (rev x))"
    by (simp only: rev_append)
  also have "\<dots> = x" by (simp only: takeWhile_dropWhile_id rev_rev_ident)
  finally have "x = rstrip_slash x @ rev (takeWhile ?P (rev x))"
    by (simp add: rstrip_slash_def)
  moreover have "set (rev (takeWhile ?P (rev x))) \<subseteq> {CHR ''/''}"
    by (auto dest: set_takeWhileD)
  ultimately show ?thesis by blast
qed

lemma rstrip_slash_last: "rstrip_slash x \<noteq> [] \<Longrightarrow> last (rstrip_slash x) \<noteq> CHR ''/''"
proof -
  assume ne: "rstrip_slash x \<noteq> []"
  let ?d = "dropWhile (\<lambda>c. c = CHR ''/'') (rev x)"
  from ne have d: "?d \<noteq> []" by (simp add: rstrip_slash_def)
  then have "hd ?d \<noteq> CHR ''/''" using hd_dropWhile [of "\<lambda>c. c = CHR ''/''" "rev x"] by simp
  moreover have "last (rstrip_slash x) = hd ?d" using d by (simp add: rstrip_slash_def last_rev)
  ultimately show ?thesis by simp
qed

lemma clean_url_append:
  assumes "set sl \<subseteq> {CHR ''/''}"
  shows "clean_url (r @ sl) = (if \<forall>c \<in> set r. c0_control_or_space c then sl else clean_url r @ sl)"
proof -
  have f: "filter (\<lambda>c. \<not> unsafe_url_byte c) sl = sl"
    using assms slash_facts(2) by (intro filter_True) auto
  have dsl: "dropWhile c0_control_or_space sl = sl"
    using assms slash_facts(1) by (cases sl) auto
  show ?thesis
  proof (cases "\<forall>c \<in> set r. c0_control_or_space c")
    case True
    then have "dropWhile c0_control_or_space (r @ sl) = dropWhile c0_control_or_space sl"
      by (intro dropWhile_append2) simp
    then have "clean_url (r @ sl) = sl" using f dsl by (simp add: clean_url_def)
    then show ?thesis by (simp only: if_P [OF True])
  next
    case False
    then obtain c where "c \<in> set r" "\<not> c0_control_or_space c" by blast
    then have "dropWhile c0_control_or_space (r @ sl) = dropWhile c0_control_or_space r @ sl"
      by (intro dropWhile_append1)
    then have "clean_url (r @ sl) = clean_url r @ sl" using f by (simp add: clean_url_def)
    then show ?thesis by (simp only: if_not_P [OF False])
  qed
qed

lemma length_takeWhile_less:
  "x \<in> set xs \<Longrightarrow> \<not> P x \<Longrightarrow> length (takeWhile P xs) < length xs"
  by (induction xs) auto

lemma split_scheme_no_colon: "CHR '':'' \<notin> set y \<Longrightarrow> split_scheme y = ([], y)"
  by (simp add: split_scheme_def)

lemma split_scheme_append:
  assumes "set sl \<subseteq> {CHR ''/''}" and "fst (split_scheme (y @ sl)) \<noteq> []"
  shows "split_scheme (y @ sl) = (fst (split_scheme y), snd (split_scheme y) @ sl)"
proof -
  have nc: "CHR '':'' \<notin> set sl" using assms(1) by auto
  have colon: "CHR '':'' \<in> set y"
  proof (rule ccontr)
    assume "CHR '':'' \<notin> set y"
    with nc have "CHR '':'' \<notin> set (y @ sl)" by simp
    then have "split_scheme (y @ sl) = ([], y @ sl)" by (rule split_scheme_no_colon)
    with assms(2) show False by simp
  qed
  let ?pre = "takeWhile (\<lambda>c. c \<noteq> CHR '':'') y"
  have pre: "takeWhile (\<lambda>c. c \<noteq> CHR '':'') (y @ sl) = ?pre"
    using colon by (intro takeWhile_append1 [of "CHR '':''"]) simp_all
  have lt: "length ?pre < length y"
    using colon by (intro length_takeWhile_less [of "CHR '':''"]) simp_all
  show ?thesis
  proof (cases "?pre \<noteq> [] \<and> ascii_alpha (hd ?pre) \<and> list_all scheme_char ?pre")
    case True
    then show ?thesis using colon lt by (simp add: split_scheme_def Let_def pre)
  next
    case False
    then have "split_scheme (y @ sl) = ([], y @ sl)"
      by (auto simp: split_scheme_def Let_def pre)
    with assms(2) show ?thesis by simp
  qed
qed

lemma splitnetloc_append:
  assumes "set sl \<subseteq> {CHR ''/''}" and "splitnetloc (rest @ sl) \<noteq> []"
  shows "splitnetloc (rest @ sl) = splitnetloc rest"
proof -
  have tsl: "takeWhile (\<lambda>c. \<not> netloc_delim c) sl' = []" if "set sl' \<subseteq> {CHR ''/''}" for sl'
    using that slash_facts(3) by (cases sl') auto
  from assms(2) have t2: "take 2 (rest @ sl) = ''//''"
    and ne: "takeWhile (\<lambda>c. \<not> netloc_delim c) (drop 2 (rest @ sl)) \<noteq> []"
    by (simp_all add: splitnetloc_def split: if_splits)
  have len: "2 \<le> length rest"
  proof (rule ccontr)
    assume "\<not> 2 \<le> length rest"
    then have "drop 2 (rest @ sl) = drop (2 - length rest) sl" by simp
    moreover have "set (drop (2 - length rest) sl) \<subseteq> {CHR ''/''}"
      using assms(1) by (meson set_drop_subset subset_trans)
    ultimately show False using ne tsl by simp
  qed
  then have t2': "take 2 rest = ''//''" using t2 by simp
  have d2: "drop 2 (rest @ sl) = drop 2 rest @ sl" using len by simp
  have "takeWhile (\<lambda>c. \<not> netloc_delim c) (drop 2 rest @ sl)
          = takeWhile (\<lambda>c. \<not> netloc_delim c) (drop 2 rest)"
  proof (cases "\<exists>c \<in> set (drop 2 rest). netloc_delim c")
    case True
    then obtain c where "c \<in> set (drop 2 rest)" "netloc_delim c" by blast
    then show ?thesis by (intro takeWhile_append1 [of c]) simp_all
  next
    case False
    then have a: "takeWhile (\<lambda>c. \<not> netloc_delim c) (drop 2 rest @ sl)
                 = drop 2 rest @ takeWhile (\<lambda>c. \<not> netloc_delim c) sl"
      by (intro takeWhile_append2) simp
    have b: "takeWhile (\<lambda>c. \<not> netloc_delim c) sl = []" by (rule tsl [OF assms(1)])
    have c: "takeWhile (\<lambda>c. \<not> netloc_delim c) (drop 2 rest) = drop 2 rest"
      using False by (intro takeWhile_eq_all_conv [THEN iffD2]) simp
    show ?thesis by (simp only: a b c append_Nil2)
  qed
  then show ?thesis using t2 t2' d2 by (simp add: splitnetloc_def)
qed

lemma validate_url_True_iff:
  "validate_url P Q x = Inr (True, m) \<longleftrightarrow>
     m = [] \<and> x \<noteq> [] \<and>
     \<not> netloc_raises P Q (splitnetloc (snd (split_scheme (clean_url x)))) \<and>
     fst (split_scheme (clean_url x)) \<noteq> [] \<and>
     splitnetloc (snd (split_scheme (clean_url x))) \<noteq> []"
  by (auto simp: validate_url_def urlparse_def Let_def split_beta)

lemma validate_url_rstrip_slash:
  assumes "validate_url P Q x = Inr (True, [])"
  shows "validate_url P Q (rstrip_slash x) = Inr (True, [])"
proof -
  define r where "r = rstrip_slash x"
  from rstrip_slash_decomp [of x] obtain sl where x: "x = r @ sl" and sl: "set sl \<subseteq> {CHR ''/''}"
    unfolding r_def by blast
  from assms have v: "\<not> netloc_raises P Q (splitnetloc (snd (split_scheme (clean_url (r @ sl)))))"
    "fst (split_scheme (clean_url (r @ sl))) \<noteq> []"
    "splitnetloc (snd (split_scheme (clean_url (r @ sl)))) \<noteq> []"
    unfolding x by (simp_all add: validate_url_True_iff)
  have not_c0: "\<not> (\<forall>c \<in> set r. c0_control_or_space c)"
  proof
    assume all: "\<forall>c \<in> set r. c0_control_or_space c"
    have "clean_url (r @ sl) = sl" by (simp only: clean_url_append [OF sl] if_P [OF all])
    moreover have "CHR '':'' \<notin> set sl" using sl by auto
    ultimately have "split_scheme (clean_url (r @ sl)) = ([], sl)"
      by (simp add: split_scheme_no_colon)
    with v(2) show False by simp
  qed
  then have r: "r \<noteq> []" by auto
  have c: "clean_url (r @ sl) = clean_url r @ sl"
    by (simp only: clean_url_append [OF sl] if_not_P [OF not_c0])
  have s: "split_scheme (clean_url (r @ sl))
             = (fst (split_scheme (clean_url r)), snd (split_scheme (clean_url r)) @ sl)"
    using v(2) unfolding c by (rule split_scheme_append [OF sl])
  have n: "splitnetloc (snd (split_scheme (clean_url (r @ sl))))
             = splitnetloc (snd (split_scheme (clean_url r)))"
    using v(3) unfolding s snd_conv by (rule splitnetloc_append [OF sl])
  have f: "fst (split_scheme (clean_url (r @ sl))) = fst (split_scheme (clean_url r))"
    unfolding s by simp
  have "validate_url P Q r = Inr (True, [])"
    using v r unfolding n f by (simp add: validate_url_True_iff)
  then show ?thesis by (simp only: r_def)
qed

lemma normalize_url_cases:
  assumes "normalize_url P Q u s = Inr r" and "r \<noteq> []"
  shows "\<exists>x. validate_url P Q x = Inr (True, []) \<and> r = rstrip_slash x"
proof -
  have t: "validate_url P Q x = Inr (True, m) \<Longrightarrow> validate_url P Q x = Inr (True, [])" for x m
    by (simp add: validate_url_True_iff)
  from assms show ?thesis
    by (auto simp: normalize_url_def Let_def split: if_splits sum.splits prod.splits dest: t)
qed


text \<open>
  Claim C8.  If \<open>normalize_url\<close> returns a non-empty string \<open>r\<close> then
  \<open>validate_url r\<close> returns \<open>(True, "")\<close> and \<open>r\<close> does not end with a slash; and
  when \<open>validate_url u\<close> returns True, \<open>normalize_url u s\<close> is \<open>u\<close> with its
  trailing slashes removed.  This holds whatever the two library checks accept.
\<close>

theorem normalize_url_result_valid:
  "(normalize_url check_bracketed_host checknetloc u s = Inr r \<and> r \<noteq> [] \<longrightarrow>
      validate_url check_bracketed_host checknetloc r = Inr (True, []) \<and> last r \<noteq> CHR ''/'')
   \<and> (validate_url check_bracketed_host checknetloc u = Inr (True, []) \<longrightarrow>
      normalize_url check_bracketed_host checknetloc u s = Inr (rstrip_slash u))"
proof (intro conjI impI)
  assume a: "normalize_url check_bracketed_host checknetloc u s = Inr r \<and> r \<noteq> []"
  then obtain x where x: "validate_url check_bracketed_host checknetloc x = Inr (True, [])"
    "r = rstrip_slash x"
    using normalize_url_cases by blast
  show "validate_url check_bracketed_host checknetloc r = Inr (True, [])"
    unfolding x(2) using x(1) by (rule validate_url_rstrip_slash)
  show "last r \<noteq> CHR ''/''"
    using a unfolding x(2) by (intro rstrip_slash_last) simp
next
  assume "validate_url check_bracketed_host checknetloc u = Inr (True, [])"
  moreover from this have "u \<noteq> []" by (simp add: validate_url_True_iff)
  ultimately show "normalize_url check_bracketed_host checknetloc u s = Inr (rstrip_slash u)"
    by (simp add: normalize_url_def)
qed

theorem normalize_url_result_valid_witness:
  "normalize_url accept_all accept_all ''localhost/'' ''http'' = Inr ''http://localhost'' \<and>
   ''http://localhost'' \<noteq> [] \<and>
   validate_url accept_all accept_all ''http://localhost'' = Inr (True, []) \<and>
   last ''http://localhost'' \<noteq> CHR ''/'' \<and>
   validate_url accept_all accept_all ''http://h//'' = Inr (True, []) \<and>
   normalize_url accept_all accept_all ''http://h//'' ''https'' = Inr ''http://h''"
proof -
  have a: "normalize_url accept_all accept_all ''localhost/'' ''http'' = Inr ''http://localhost''"
    by code_simp
  have b: "validate_url accept_all accept_all ''http://h//'' = Inr (True, [])"
    by code_simp
  have c: "rstrip_slash ''http://h//'' = ''http://h''"
    by (simp add: rstrip_slash_def)
  from a b c
    normalize_url_result_valid [of accept_all accept_all "''localhost/''" "''http''" "''http://localhost''"]
    normalize_url_result_valid [of accept_all accept_all "''http://h//''" "''https''" "[]"]
  show ?thesis by simp
qed

end
